theory Spec2Isabelle
  imports Main "HOL-Library.Word" "HOL-Library.AList"
begin

section \<open>Data model\<close>

text \<open>
  A Python \<^verbatim>\<open>bytearray\<close> is a mutable sequence of integers in \<open>0..255\<close>; its
  contents are modelled as a list of 8-bit words. Python's \<^verbatim>\<open>IndexError\<close> and
  \<^verbatim>\<open>ValueError\<close> are values of \<open>py_error\<close>; a function that can raise returns
  \<open>py_error + 'a\<close>.
\<close>

type_synonym byte = "8 word"
type_synonym bytearray = "byte list"

datatype py_error = IndexError | ValueError

section \<open>The run-length codec\<close>

subsection \<open>\<^verbatim>\<open>rle_compress\<close> (main.py, lines 147-167)\<close>

text \<open>
  The inner loop
  \<^verbatim>\<open>while count < max_count and data[i] == data[i + count]: count += 1\<close>.
  The guard \<open>count < max_count\<close> with \<open>max_count \<le> length data - i\<close> keeps both
  indices inside the buffer (lemma \<open>run_count_index_in_range\<close>), so the reads never raise.
\<close>

function run_count :: "bytearray \<Rightarrow> nat \<Rightarrow> nat \<Rightarrow> nat \<Rightarrow> nat" where
  "run_count data i max_count count =
     (if count < max_count \<and> data ! i = data ! (i + count)
      then run_count data i max_count (count + 1)
      else count)"
  by pat_completeness auto
termination
  by (relation "measure (\<lambda>(data, i, max_count, count). max_count - count)") auto

declare run_count.simps [simp del]

lemma run_count_ge: "count \<le> run_count data i max_count count"
proof (induction data i max_count count rule: run_count.induct)
  case (1 data i max_count count)
  show ?case
  proof (cases "count < max_count \<and> data ! i = data ! (i + count)")
    case True
    with "1.IH" have "count + 1 \<le> run_count data i max_count (count + 1)" by simp
    with True show ?thesis by (subst run_count.simps) simp
  next
    case False
    then show ?thesis by (subst run_count.simps) auto
  qed
qed

text \<open>
  The outer loop. \<open>compressed_data.extend([2, count, data[i]])\<close> stores \<open>count\<close> as a
  byte; \<open>count \<le> 255\<close> always holds there (lemma \<open>run_count_le\<close>), so the conversion
  \<open>of_nat\<close> never wraps.
\<close>

function rle_compress_loop :: "bytearray \<Rightarrow> nat \<Rightarrow> bytearray \<Rightarrow> bytearray" where
  "rle_compress_loop data i compressed_data =
     (if i < length data then
        (let max_count = min 255 (length data - i);
             count = run_count data i max_count 1;
             compressed_data' =
               (if count > 2 then compressed_data @ [2, of_nat count, data ! i]
                else (let appended = compressed_data @ [data ! i]
                      in if count = 2 then appended @ [data ! (i + 1)] else appended))
         in rle_compress_loop data (i + count) compressed_data')
      else compressed_data)"
  by pat_completeness auto
termination
proof (relation "measure (\<lambda>(data, i, compressed_data). length data - i)")
  show "wf (measure (\<lambda>(data, i, compressed_data). length data - i))" by simp
next
  fix data :: bytearray and i :: nat and compressed_data :: bytearray
    and max_count count :: nat and compressed_data' :: bytearray
  assume lt: "i < length data"
    and c: "count = run_count data i max_count 1"
  have "1 \<le> count" unfolding c by (rule run_count_ge)
  with lt show "((data, i + count, compressed_data'), (data, i, compressed_data))
      \<in> measure (\<lambda>(data, i, compressed_data). length data - i)"
    by simp
qed

declare rle_compress_loop.simps [simp del]

definition rle_compress :: "bytearray \<Rightarrow> bytearray" where
  "rle_compress data = rle_compress_loop data 0 []"

subsection \<open>\<^verbatim>\<open>rle_decompress\<close> (main.py, lines 169-184)\<close>

text \<open>
  The reads \<open>compressed_data[i + 1]\<close> and \<open>compressed_data[i + 2]\<close> are not guarded
  in the source: Python raises \<^verbatim>\<open>IndexError\<close> when the index is past the end, in
  that order. \<open>[pixel_value] * run_length\<close> is \<open>replicate\<close>.
\<close>

function rle_decompress_loop :: "bytearray \<Rightarrow> nat \<Rightarrow> bytearray \<Rightarrow> py_error + bytearray" where
  "rle_decompress_loop compressed_data i decompressed_data =
     (if i < length compressed_data then
        (if compressed_data ! i = 2 then
           (if \<not> i + 1 < length compressed_data then Inl IndexError
            else if \<not> i + 2 < length compressed_data then Inl IndexError
            else (let run_length = compressed_data ! (i + 1);
                      pixel_value = compressed_data ! (i + 2)
                  in rle_decompress_loop compressed_data (i + 3)
                       (decompressed_data @ replicate (unat run_length) pixel_value)))
         else rle_decompress_loop compressed_data (i + 1)
                (decompressed_data @ [compressed_data ! i]))
      else Inr decompressed_data)"
  by pat_completeness auto
termination
  by (relation "measure (\<lambda>(compressed_data, i, decompressed_data). length compressed_data - i)")
     auto

declare rle_decompress_loop.simps [simp del]

definition rle_decompress :: "bytearray \<Rightarrow> py_error + bytearray" where
  "rle_decompress compressed_data = rle_decompress_loop compressed_data 0 []"

section \<open>The escape-conflict resolver\<close>

subsection \<open>Buffers as heap objects\<close>

text \<open>
  \<^verbatim>\<open>fix_data_for_rle\<close> copies its argument and then writes into the copy, and what it
  must not do is write into the caller's object. So this one function is modelled over
  an explicit store: a heap is the list of all bytearray objects, an address is an index
  into it, and allocating appends. \<^verbatim>\<open>data.copy()\<close> allocates a new object with the
  same contents.
\<close>

type_synonym addr = nat
type_synonym heap = "bytearray list"

definition bytearray_copy :: "heap \<Rightarrow> addr \<Rightarrow> heap \<times> addr" where
  "bytearray_copy h a = (h @ [h ! a], length h)"

text \<open>
  \<^verbatim>\<open>bytearray.find(sub, start)\<close>: the lowest index \<open>\<ge> start\<close> that holds \<open>sub\<close>; Python
  returns \<open>-1\<close> when there is none, here \<open>None\<close>.
\<close>

definition bytearray_find :: "bytearray \<Rightarrow> byte \<Rightarrow> nat \<Rightarrow> nat option" where
  "bytearray_find data sub start = List.find (\<lambda>j. data ! j = sub) [start..<length data]"

lemma bytearray_find_SomeD:
  assumes "bytearray_find xs b k = Some i"
  shows "k \<le> i \<and> i < length xs \<and> xs ! i = b \<and> (\<forall>j. k \<le> j \<and> j < i \<longrightarrow> xs ! j \<noteq> b)"
proof -
  from assms obtain m where m: "m < length [k..<length xs]" "xs ! ([k..<length xs] ! m) = b"
    "i = [k..<length xs] ! m" "\<forall>j<m. xs ! ([k..<length xs] ! j) \<noteq> b"
    unfolding bytearray_find_def find_Some_iff by blast
  from m(1) have mk: "k + m < length xs" by simp
  with m(3) have i: "i = k + m" by simp
  have "xs ! j \<noteq> b" if "k \<le> j" "j < i" for j
  proof -
    from that i have "j - k < m" by simp
    with m(4) have "xs ! ([k..<length xs] ! (j - k)) \<noteq> b" by blast
    moreover from that i mk have "[k..<length xs] ! (j - k) = j" by simp
    ultimately show ?thesis by simp
  qed
  with i mk m(2) show ?thesis by simp
qed

lemma bytearray_find_NoneD:
  assumes "bytearray_find xs b k = None" and "k \<le> j" and "j < length xs"
  shows "xs ! j \<noteq> b"
proof -
  from assms(2,3) have "j \<in> set [k..<length xs]" by simp
  with assms(1) show ?thesis unfolding bytearray_find_def find_None_iff by blast
qed

subsection \<open>\<^verbatim>\<open>fix_data_for_rle\<close> (main.py, lines 135-145)\<close>

text \<open>
  The loop \<^verbatim>\<open>while i != -1: copy[i] = 1; i = copy.find(2, i + 1)\<close>. The index it writes
  at always comes from \<open>find\<close>, so it is in range and the assignment never raises.
\<close>

function fix_loop :: "heap \<Rightarrow> addr \<Rightarrow> nat option \<Rightarrow> heap" where
  "fix_loop h copy None = h"
| "fix_loop h copy (Some i) =
     (let h' = h[copy := (h ! copy)[i := 1]]
      in fix_loop h' copy (bytearray_find (h' ! copy) 2 (i + 1)))"
  by pat_completeness auto
termination
proof (relation "measure (\<lambda>(h, copy, io). case io of None \<Rightarrow> 0 | Some i \<Rightarrow> Suc (length (h ! copy) - i))")
  show "wf (measure (\<lambda>(h, copy, io). case io of None \<Rightarrow> 0 | Some i \<Rightarrow> Suc (length (h ! copy) - i)))"
    by simp
next
  fix h :: heap and copy i :: nat and h' :: heap
  assume h': "h' = h[copy := (h ! copy)[i := 1]]"
  have len: "length (h' ! copy) = length (h ! copy)"
  proof (cases "copy < length h")
    case True
    then show ?thesis unfolding h' by simp
  next
    case False
    then show ?thesis unfolding h' by (simp add: list_update_beyond)
  qed
  show "((h', copy, bytearray_find (h' ! copy) 2 (i + 1)), (h, copy, Some i))
     \<in> measure (\<lambda>(h, copy, io). case io of None \<Rightarrow> 0 | Some i \<Rightarrow> Suc (length (h ! copy) - i))"
  proof (cases "bytearray_find (h' ! copy) 2 (i + 1)")
    case None
    then show ?thesis by simp
  next
    case (Some j)
    from bytearray_find_SomeD [OF Some] have "i + 1 \<le> j" and "j < length (h' ! copy)" by simp_all
    with Some len show ?thesis by simp
  qed
qed

declare fix_loop.simps(2) [simp del]

definition fix_data_for_rle :: "heap \<Rightarrow> addr \<Rightarrow> heap \<times> addr" where
  "fix_data_for_rle h data =
     (let (h1, copy) = bytearray_copy h data;
          i = bytearray_find (h1 ! copy) 2 0;
          h2 = fix_loop h1 copy i
      in (h2, copy))"

text \<open>
  The rest of the pipeline passes buffers by value; for it, the bytes of the buffer
  that \<open>fix_data_for_rle\<close> returns when the heap holds just the argument.
\<close>

definition fix_data_for_rle_result :: "bytearray \<Rightarrow> bytearray" where
  "fix_data_for_rle_result data = (let (h, copy) = fix_data_for_rle [data] 0 in h ! copy)"

text \<open>What the resolver does to one byte, for stating its effect.\<close>

definition unflag :: "byte \<Rightarrow> byte" where
  "unflag b = (if b = 2 then 1 else b)"

section \<open>The alpha transform\<close>

subsection \<open>\<^verbatim>\<open>get_alpha_values\<close> (main.py, lines 215-219)\<close>

text \<open>
  Python's extended slice \<^verbatim>\<open>xs[start::step]\<close> for \<open>start \<ge> 0\<close> and \<open>step \<ge> 1\<close>: the
  elements at \<open>start\<close>, \<open>start + step\<close>, ... while the index is inside the sequence.
  \<open>stride step\<close> keeps the first element and then every \<open>step\<close>-th one. The source
  takes \<^verbatim>\<open>image_data[3::4]\<close>.
\<close>

fun stride :: "nat \<Rightarrow> 'a list \<Rightarrow> 'a list" where
  "stride step [] = []"
| "stride step (x # rest) = x # stride step (drop (step - 1) rest)"

definition py_slice_from_step :: "nat \<Rightarrow> nat \<Rightarrow> 'a list \<Rightarrow> 'a list" where
  "py_slice_from_step start step xs = stride step (drop start xs)"

definition get_alpha_values :: "bytearray \<Rightarrow> bytearray" where
  "get_alpha_values image_data = py_slice_from_step 3 4 image_data"

subsection \<open>\<^verbatim>\<open>alpha_vals_to_image_data\<close> (main.py, lines 221-229)\<close>

text \<open>The loop \<^verbatim>\<open>for i in alpha_values: image_data.extend([255, 255, 255, i])\<close>.\<close>

fun alpha_loop :: "bytearray \<Rightarrow> bytearray \<Rightarrow> bytearray" where
  "alpha_loop image_data [] = image_data"
| "alpha_loop image_data (i # alpha_values) =
     alpha_loop (image_data @ [255, 255, 255, i]) alpha_values"

definition alpha_vals_to_image_data :: "bytearray \<Rightarrow> bytearray" where
  "alpha_vals_to_image_data alpha_values = alpha_loop [] alpha_values"

section \<open>The packaging decision in \<^verbatim>\<open>main\<close> (main.py, lines 251-278)\<close>

text \<open>
  The body of the loop over the files, from the decoded image to the tuple stored in
  \<^verbatim>\<open>image_data_map\<close>. What the collaborators deliver is its input: \<open>img\<close> is the
  result of \<^verbatim>\<open>read_image\<close> (pixel bytes, width, height) and \<open>raw_png_data\<close> the bytes
  of the file. The module constant \<^verbatim>\<open>ALPHA_ONLY\<close> is a parameter (the source sets it
  to \<open>True\<close>). The bookkeeping of saved bytes and the printing are left out: they do
  not reach the tuple.
\<close>

type_synonym image_entry = "bytearray \<times> nat \<times> nat \<times> nat \<times> bool \<times> bool"

definition main_image ::
  "bool \<Rightarrow> bytearray \<times> nat \<times> nat \<Rightarrow> bytearray \<Rightarrow> image_entry" where
  "main_image ALPHA_ONLY img raw_png_data =
     (let (image_data, width, height) = img;
          alpha_only = False;
          (alpha_only, image_data) =
            (if ALPHA_ONLY then (True, get_alpha_values image_data)
             else (alpha_only, image_data));
          adjusted_image_data = fix_data_for_rle_result image_data;
          decompressed_size = length adjusted_image_data;
          image_data = rle_compress adjusted_image_data;
          is_raw_png = False;
          (image_data, is_raw_png, alpha_only) =
            (if length raw_png_data < length image_data
             then (raw_png_data, True, False)
             else (image_data, is_raw_png, alpha_only))
      in (image_data, width, height, decompressed_size, is_raw_png, alpha_only))"

definition entry_is_raw_png :: "image_entry \<Rightarrow> bool" where
  "entry_is_raw_png e = (case e of (image_data, width, height, decompressed_size, is_raw_png, alpha_only) \<Rightarrow> is_raw_png)"

definition entry_alpha_only :: "image_entry \<Rightarrow> bool" where
  "entry_alpha_only e = (case e of (image_data, width, height, decompressed_size, is_raw_png, alpha_only) \<Rightarrow> alpha_only)"

section \<open>The table serializer and deserializer\<close>

text \<open>
  Python strings are modelled as HOL strings (lists of 8-bit characters), which covers
  the ASCII text the serializer writes. \<open>dq\<close> is the double quote and \<open>nl\<close> the
  newline.
\<close>

definition dq :: char where "dq = CHR 0x22"
definition nl :: char where "nl = CHR 0x0A"

subsection \<open>\<^verbatim>\<open>generate_header\<close> (main.py, lines 57-82)\<close>

text \<open>
  \<^verbatim>\<open>str(n)\<close> of a non-negative integer is its decimal numeral, and
  \<^verbatim>\<open>sep.join(pieces)\<close> puts \<open>sep\<close> between the pieces.
\<close>

function str_nat :: "nat \<Rightarrow> string" where
  "str_nat n = (if n < 10 then [char_of (48 + n)] else str_nat (n div 10) @ [char_of (48 + n mod 10)])"
  by pat_completeness auto
termination
  by (relation "measure id") auto

declare str_nat.simps [simp del]

fun join :: "string \<Rightarrow> string list \<Rightarrow> string" where
  "join sep [] = []"
| "join sep [x] = x"
| "join sep (x # y # ys) = x @ sep @ join sep (y # ys)"

text \<open>
  The dictionary \<^verbatim>\<open>image_data_map\<close> is an association list in insertion order, which
  is the order \<^verbatim>\<open>items()\<close> iterates in. \<open>header_entry\<close> is the f-string of line 78 and
  \<open>header_preamble\<close> the text of lines 61-73.
\<close>

definition header_preamble :: string where
  "header_preamble =
     ''#pragma once'' @ [nl, nl] @
     ''#include <map>'' @ [nl] @
     ''#include <string>'' @ [nl, nl] @
     ''struct ImageData {'' @ [nl] @
     ''    unsigned char* data;'' @ [nl] @
     ''    unsigned int size;'' @ [nl] @
     ''    unsigned int width;'' @ [nl] @
     ''    unsigned int height;'' @ [nl] @
     ''    unsigned int originalSize;'' @ [nl] @
     ''    bool isRawPng;'' @ [nl] @
     ''    bool alphaOnly;'' @ [nl] @
     ''};'' @ [nl, nl] @
     ''std::map<std::string, ImageData> imageMap = {'' @ [nl]"

definition header_entry :: "string \<times> image_entry \<Rightarrow> string" where
  "header_entry item =
     (case item of (file_name, (image_data, width, height, original_size, is_raw_png, alpha_only)) \<Rightarrow>
        (let image_data_str = join '','' (map (\<lambda>b. str_nat (unat b)) image_data);
             data_len = length image_data
         in ''{ '' @ [dq] @ file_name @ [dq] @ '', { new unsigned char['' @ str_nat data_len @
            ''] { '' @ image_data_str @ '' }, '' @ str_nat data_len @ '', '' @ str_nat width @
            '', '' @ str_nat height @ '', '' @ str_nat original_size @ '', '' @
            (if is_raw_png then ''true'' else ''false'') @ '', '' @
            (if alpha_only then ''true'' else ''false'') @ '' } },'' @ [nl]))"

definition generate_header :: "(string \<times> image_entry) list \<Rightarrow> string" where
  "generate_header image_data_map =
     foldl (\<lambda>header item. header @ header_entry item) header_preamble image_data_map @ ''};''"

subsection \<open>\<^verbatim>\<open>extract_image_data\<close> (main.py, lines 84-108)\<close>

text \<open>\<^verbatim>\<open>s.split(sep)\<close> for a one-character separator: never empty, \<open>['']\<close> for \<open>''\<close>.\<close>

fun str_split :: "char \<Rightarrow> string \<Rightarrow> string list" where
  "str_split sep [] = [[]]"
| "str_split sep (c # cs) =
     (if c = sep then [] # str_split sep cs
      else (case str_split sep cs of
              piece # pieces \<Rightarrow> (c # piece) # pieces
            | [] \<Rightarrow> [[c]]))"

text \<open>
  The regular expression of line 94 is a sequence of three kinds of items: literal text,
  the lazy group \<^verbatim>\<open>(.*?)\<close> and the greedy group \<^verbatim>\<open>(\d+)\<close>. \<open>match_here\<close> matches such a
  sequence at the start of a string the way Python's backtracking matcher does and
  returns the groups' texts in order: a lazy group first tries to take nothing and
  takes one more character (any but a newline) each time the rest of the pattern
  fails; a greedy digit group first takes every digit there is and gives one back each
  time the rest fails, down to one digit. \<open>re_search\<close> tries every start position from
  the left, as \<^verbatim>\<open>re.search\<close> does. \<^verbatim>\<open>\d\<close> is an ASCII digit here.
\<close>

datatype rx_item = Lit string | LazyAnyGroup | DigitsGroup

definition is_digit :: "char \<Rightarrow> bool" where
  "is_digit c = (let n = (of_char c :: nat) in 48 \<le> n \<and> n \<le> 57)"

fun lazy_any :: "(string \<Rightarrow> string list option) \<Rightarrow> string \<Rightarrow> string \<Rightarrow> string list option" where
  "lazy_any k acc [] = (case k [] of Some gs \<Rightarrow> Some (acc # gs) | None \<Rightarrow> None)"
| "lazy_any k acc (c # cs) =
     (case k (c # cs) of
        Some gs \<Rightarrow> Some (acc # gs)
      | None \<Rightarrow> if c = nl then None else lazy_any k (acc @ [c]) cs)"

fun greedy_digits :: "(string \<Rightarrow> string list option) \<Rightarrow> string \<Rightarrow> nat \<Rightarrow> string list option" where
  "greedy_digits k s 0 = None"
| "greedy_digits k s (Suc n) =
     (case k (drop (Suc n) s) of
        Some gs \<Rightarrow> Some (take (Suc n) s # gs)
      | None \<Rightarrow> greedy_digits k s n)"

primrec match_here :: "rx_item list \<Rightarrow> string \<Rightarrow> string list option" where
  "match_here [] = (\<lambda>s. Some [])"
| "match_here (item # items) =
     (\<lambda>s. case item of
        Lit l \<Rightarrow> if take (length l) s = l then match_here items (drop (length l) s) else None
      | LazyAnyGroup \<Rightarrow> lazy_any (match_here items) [] s
      | DigitsGroup \<Rightarrow> greedy_digits (match_here items) s (length (takeWhile is_digit s)))"

fun re_search :: "rx_item list \<Rightarrow> string \<Rightarrow> string list option" where
  "re_search p [] = match_here p []"
| "re_search p (c # cs) =
     (case match_here p (c # cs) of Some gs \<Rightarrow> Some gs | None \<Rightarrow> re_search p cs)"

text \<open>
  The pattern
  \<^verbatim>\<open>\"(.*?)\", \{ new unsigned char\[(\d+)\] \{(.*?)\}, (\d+), (\d+), (\d+), (\d+), (.*?) \}\<close>.
\<close>

definition pattern :: "rx_item list" where
  "pattern =
     [Lit [dq], LazyAnyGroup, Lit ([dq] @ '', { new unsigned char[''), DigitsGroup,
      Lit ''] {'', LazyAnyGroup, Lit ''}, '', DigitsGroup, Lit '', '', DigitsGroup,
      Lit '', '', DigitsGroup, Lit '', '', DigitsGroup, Lit '', '', LazyAnyGroup, Lit '' }'']"

text \<open>
  \<^verbatim>\<open>int(s)\<close> of a string: surrounding whitespace is stripped; then an optional sign
  and decimal digits, where single underscores may stand between digits; anything else
  raises \<^verbatim>\<open>ValueError\<close>. (CPython also refuses numerals of more than 4300 digits;
  that limit is not modelled.)
\<close>

definition is_space :: "char \<Rightarrow> bool" where
  "is_space c = (let n = (of_char c :: nat) in (9 \<le> n \<and> n \<le> 13) \<or> (28 \<le> n \<and> n \<le> 32))"

definition strip :: "string \<Rightarrow> string" where
  "strip s = rev (dropWhile is_space (rev (dropWhile is_space s)))"

definition digit_val :: "char \<Rightarrow> nat" where
  "digit_val c = of_char c - 48"

fun digits_acc :: "nat \<Rightarrow> string \<Rightarrow> nat option" where
  "digits_acc acc [] = Some acc"
| "digits_acc acc [c] = (if is_digit c then Some (10 * acc + digit_val c) else None)"
| "digits_acc acc (c # d # ds) =
     (if is_digit c then digits_acc (10 * acc + digit_val c) (d # ds)
      else if c = CHR ''_'' \<and> is_digit d then digits_acc (10 * acc + digit_val d) ds
      else None)"

definition py_digits :: "string \<Rightarrow> nat option" where
  "py_digits s = (case s of [] \<Rightarrow> None | c # cs \<Rightarrow> if is_digit c then digits_acc (digit_val c) cs else None)"

definition py_int :: "string \<Rightarrow> py_error + int" where
  "py_int s =
     (case strip s of
        [] \<Rightarrow> Inl ValueError
      | c # cs \<Rightarrow>
          (if c = CHR ''-'' then (case py_digits cs of None \<Rightarrow> Inl ValueError | Some n \<Rightarrow> Inr (- int n))
           else if c = CHR ''+'' then (case py_digits cs of None \<Rightarrow> Inl ValueError | Some n \<Rightarrow> Inr (int n))
           else (case py_digits (c # cs) of None \<Rightarrow> Inl ValueError | Some n \<Rightarrow> Inr (int n))))"

text \<open>
  \<^verbatim>\<open>bytearray(map(int, pieces))\<close>: every piece is converted in turn, and a value outside
  \<open>0..255\<close> raises \<^verbatim>\<open>ValueError\<close> as a failed conversion does.
\<close>

fun bytearray_of_strs :: "string list \<Rightarrow> py_error + bytearray" where
  "bytearray_of_strs [] = Inr []"
| "bytearray_of_strs (s # ss) =
     (case py_int s of
        Inl e \<Rightarrow> Inl e
      | Inr v \<Rightarrow>
          if 0 \<le> v \<and> v < 256 then
            (case bytearray_of_strs ss of Inl e \<Rightarrow> Inl e | Inr bs \<Rightarrow> Inr (of_int v # bs))
          else Inl ValueError)"

text \<open>
  The tuple stored per file has seven components:
  \<^verbatim>\<open>(image_data, int(length), width, height, original_size, is_raw_png, alpha_only)\<close>.
  \<open>extract_line\<close> is the body of the loop for one line: \<^verbatim>\<open>bool(s)\<close> of a string is
  \<open>s \<noteq> ''\<close>, and \<^verbatim>\<open>d[filename] = t\<close> is \<open>AList.update\<close> (a key that is present keeps its
  place). \<open>extract_loop\<close> is the loop \<^verbatim>\<open>while i < len(lines)\<close>, started at \<open>i = 14\<close>.
\<close>

type_synonym extracted_entry = "bytearray \<times> int \<times> int \<times> int \<times> int \<times> bool \<times> bool"

definition extract_line ::
  "string \<Rightarrow> (string \<times> extracted_entry) list \<Rightarrow> py_error + (string \<times> extracted_entry) list" where
  "extract_line line extracted_image_data_map =
     (case re_search pattern line of
        Some [g1, g2, g3, g4, g5, g6, g7, g8] \<Rightarrow>
          (let filename = g1; len = g2 in
           case bytearray_of_strs (str_split CHR '','' g3) of
             Inl e \<Rightarrow> Inl e
           | Inr image_data \<Rightarrow>
           case py_int g4 of Inl e \<Rightarrow> Inl e | Inr width \<Rightarrow>
           case py_int g5 of Inl e \<Rightarrow> Inl e | Inr height \<Rightarrow>
           case py_int g6 of Inl e \<Rightarrow> Inl e | Inr original_size \<Rightarrow>
           (let is_raw_png = (g7 \<noteq> []); alpha_only = (g8 \<noteq> []) in
            case py_int len of Inl e \<Rightarrow> Inl e | Inr len_int \<Rightarrow>
              Inr (AList.update filename
                     (image_data, len_int, width, height, original_size, is_raw_png, alpha_only)
                     extracted_image_data_map)))
      | _ \<Rightarrow> Inr extracted_image_data_map)"

function extract_loop ::
  "string list \<Rightarrow> nat \<Rightarrow> (string \<times> extracted_entry) list \<Rightarrow> py_error + (string \<times> extracted_entry) list" where
  "extract_loop lines i extracted_image_data_map =
     (if i < length lines then
        (case extract_line (lines ! i) extracted_image_data_map of
           Inl e \<Rightarrow> Inl e
         | Inr m \<Rightarrow> extract_loop lines (i + 1) m)
      else Inr extracted_image_data_map)"
  by pat_completeness auto
termination
  by (relation "measure (\<lambda>(lines, i, m). length lines - i)") auto

declare extract_loop.simps [simp del]

definition extract_image_data :: "string \<Rightarrow> py_error + (string \<times> extracted_entry) list" where
  "extract_image_data header = extract_loop (str_split nl header) 14 []"

section \<open>Definitions used to state and prove the claims\<close>

subsection \<open>The alpha channel of a pixel sequence\<close>

text \<open>
  \<open>alpha_of_pixels\<close> reads a buffer four bytes at a time and keeps the fourth; a
  trailing group of fewer than four bytes has no alpha byte. It gives the induction
  rule for the proofs about \<open>get_alpha_values\<close>.
\<close>

fun alpha_of_pixels :: "'a list \<Rightarrow> 'a list" where
  "alpha_of_pixels (r # g # b # a # rest) = a # alpha_of_pixels rest"
| "alpha_of_pixels _ = []"

subsection \<open>The encoding algorithm in the spec's words\<close>

text \<open>
  The spec (section 4.1) describes the encoder as a left-to-right scan that greedily
  extends a run of identical bytes up to a cap of 255 or the end of the buffer, emits
  \<open>[2, runLength, value]\<close> for a run of length at least 3 and the bytes themselves
  otherwise. \<open>spec_runs\<close> is that scan, as the list of \<open>(runLength, value)\<close> pairs it
  visits, and \<open>spec_emit\<close> is what the spec emits for one pair. They are written from
  the spec's words and compared with the source's loop in \<open>rle_compress_runs\<close>.
\<close>

function spec_runs :: "bytearray \<Rightarrow> (nat \<times> byte) list" where
  "spec_runs [] = []"
| "spec_runs (v # rest) =
     (let n = min 255 (1 + length (takeWhile (\<lambda>b. b = v) rest))
      in (n, v) # spec_runs (drop (n - 1) rest))"
  by pat_completeness auto
termination
  by (relation "measure length") auto

fun spec_emit :: "nat \<times> byte \<Rightarrow> bytearray" where
  "spec_emit (n, v) = (if n \<ge> 3 then [2, of_nat n, v] else replicate n v)"

declare spec_runs.simps(2) [simp del]

subsection \<open>The decoder as a function of the remaining input\<close>

text \<open>
  \<open>decode_stream\<close> is the decoder's loop read as a recursion over the part of the
  buffer that is still to be scanned; \<open>rle_decompress_stream\<close> proves that the source's
  index loop computes it. \<open>prepend\<close> puts already decoded bytes in front of a result.
\<close>

fun prepend :: "bytearray \<Rightarrow> py_error + bytearray \<Rightarrow> py_error + bytearray" where
  "prepend xs (Inl e) = Inl e"
| "prepend xs (Inr ys) = Inr (xs @ ys)"

fun decode_stream :: "bytearray \<Rightarrow> py_error + bytearray" where
  "decode_stream [] = Inr []"
| "decode_stream (b # rest) =
     (if b = 2 then
        (case rest of
           n # v # rest' \<Rightarrow> prepend (replicate (unat n) v) (decode_stream rest')
         | _ \<Rightarrow> Inl IndexError)
      else prepend [b] (decode_stream rest))"

subsection \<open>Streams whose escape sequences are complete\<close>

text \<open>
  \<open>escapes_complete ys\<close> scans \<open>ys\<close> as the decoder does and holds when every marker
  byte \<open>2\<close> it meets is followed by two bytes, neither of them \<open>2\<close>.
\<close>

fun escapes_complete :: "bytearray \<Rightarrow> bool" where
  "escapes_complete [] = True"
| "escapes_complete (b # rest) =
     (if b = 2 then
        (case rest of
           n # v # rest' \<Rightarrow> n \<noteq> 2 \<and> v \<noteq> 2 \<and> escapes_complete rest'
         | _ \<Rightarrow> False)
      else escapes_complete rest)"

section \<open>Properties of the codec\<close>

subsection \<open>The encoder's loop computes the spec's scan\<close>

lemma run_count_takeWhile:
  "count \<le> max_count \<Longrightarrow> i + max_count \<le> length data \<Longrightarrow>
   run_count data i max_count count =
     min max_count (count + length (takeWhile (\<lambda>b. b = data ! i) (drop (i + count) data)))"
proof (induction data i max_count count rule: run_count.induct)
  case (1 data i max_count count)
  show ?case
  proof (cases "count < max_count")
    case False
    with "1.prems" have "count = max_count" by simp
    then show ?thesis by (subst run_count.simps) simp
  next
    case lt: True
    with "1.prems" have in_range: "i + count < length data" by simp
    then have split: "drop (i + count) data = data ! (i + count) # drop (i + (count + 1)) data"
      by (simp add: Cons_nth_drop_Suc)
    show ?thesis
    proof (cases "data ! i = data ! (i + count)")
      case True
      with lt "1.IH" "1.prems" have
        "run_count data i max_count (count + 1) =
           min max_count (count + 1 + length (takeWhile (\<lambda>b. b = data ! i) (drop (i + (count + 1)) data)))"
        by simp
      with True lt show ?thesis
        by (subst run_count.simps) (simp add: split)
    next
      case False
      with lt show ?thesis
        by (subst run_count.simps) (simp add: split)
    qed
  qed
qed

lemma run_count_le:
  "count \<le> max_count \<Longrightarrow> run_count data i max_count count \<le> max_count"
proof (induction data i max_count count rule: run_count.induct)
  case (1 data i max_count count)
  show ?case
  proof (cases "count < max_count \<and> data ! i = data ! (i + count)")
    case True
    with "1.IH" have "run_count data i max_count (count + 1) \<le> max_count" by simp
    with True show ?thesis by (subst run_count.simps) simp
  next
    case False
    with "1.prems" show ?thesis by (subst run_count.simps) auto
  qed
qed

lemma run_count_index_in_range:
  "count < max_count \<Longrightarrow> max_count \<le> length data - i \<Longrightarrow> i + count < length data"
  by simp

lemma outer_count:
  assumes "i < length data"
  shows "run_count data i (min 255 (length data - i)) 1 =
         min 255 (1 + length (takeWhile (\<lambda>b. b = data ! i) (drop (Suc i) data)))"
proof -
  define k where "k = length (takeWhile (\<lambda>b. b = data ! i) (drop (Suc i) data))"
  have "k \<le> length (drop (Suc i) data)" unfolding k_def by (rule length_takeWhile_le)
  with assms have le: "1 + k \<le> length data - i" by simp
  from assms have "i + min 255 (length data - i) \<le> length data" by simp
  moreover from assms have "1 \<le> min 255 (length data - i)" by simp
  ultimately have "run_count data i (min 255 (length data - i)) 1 =
      min (min 255 (length data - i)) (1 + k)"
    unfolding k_def by (simp only: run_count_takeWhile Suc_eq_plus1)
  also from le have "\<dots> = min 255 (1 + k)" by (simp only: min_def split: if_splits) linarith
  finally show ?thesis unfolding k_def .
qed

lemma rle_compress_loop_runs:
  "i \<le> length data \<Longrightarrow>
   rle_compress_loop data i acc = acc @ concat (map spec_emit (spec_runs (drop i data)))"
proof (induction data i acc rule: rle_compress_loop.induct)
  case (1 data i acc)
  show ?case
  proof (cases "i < length data")
    case False
    with "1.prems" show ?thesis by (subst rle_compress_loop.simps) simp
  next
    case True
    define v where "v = data ! i"
    define rest where "rest = drop (Suc i) data"
    define tw where "tw = takeWhile (\<lambda>b. b = v) rest"
    define n where "n = min 255 (1 + length tw)"
    define out where "out =
       (if n > 2 then acc @ [2, of_nat n, data ! i]
        else (let appended = acc @ [data ! i]
              in if n = 2 then appended @ [data ! (i + 1)] else appended))"
    have cnt: "run_count data i (min 255 (length data - i)) 1 = n"
      unfolding n_def tw_def rest_def v_def using True by (rule outer_count)
    have split: "drop i data = v # rest"
      unfolding v_def rest_def using True by (simp add: Cons_nth_drop_Suc)
    have "length tw \<le> length rest" unfolding tw_def by (rule length_takeWhile_le)
    moreover have "length rest = length data - Suc i" unfolding rest_def by simp
    moreover have n_le': "n \<le> 1 + length tw" unfolding n_def by simp
    ultimately have n_le: "i + n \<le> length data" using True by linarith
    have n_pos: "1 \<le> n" unfolding n_def by simp
    have step: "rle_compress_loop data i acc = rle_compress_loop data (i + n) out"
      by (subst rle_compress_loop.simps) (simp only: True if_True Let_def cnt out_def)
    have ih: "rle_compress_loop data (i + n) out =
              out @ concat (map spec_emit (spec_runs (drop (i + n) data)))"
      using "1.IH" [OF True refl cnt [symmetric] refl n_le] unfolding out_def .
    have drop_eq: "drop (n - 1) rest = drop (i + n) data"
      unfolding rest_def using n_pos by (simp add: add.commute)
    have two: "data ! (i + 1) = v" if "n = 2"
    proof -
      from that n_le' have "tw \<noteq> []" by auto
      then have "rest \<noteq> []" and "hd rest = v"
        unfolding tw_def by (auto simp: takeWhile_eq_Nil_iff)
      moreover from \<open>rest \<noteq> []\<close> have "Suc i < length data" unfolding rest_def by simp
      ultimately show ?thesis unfolding rest_def by (simp add: hd_drop_conv_nth)
    qed
    have out_eq: "out = acc @ spec_emit (n, v)"
    proof (cases "n > 2")
      case True
      then show ?thesis unfolding out_def v_def by simp
    next
      case False
      with n_pos have "n = 1 \<or> n = 2" by linarith
      then show ?thesis
      proof
        assume "n = 1" then show ?thesis unfolding out_def v_def by (simp add: Let_def)
      next
        assume e: "n = 2"
        with two have "data ! (i + 1) = v" by blast
        with e show ?thesis unfolding out_def by (simp add: Let_def numeral_2_eq_2 v_def)
      qed
    qed
    have "spec_runs (drop i data) = (n, v) # spec_runs (drop (i + n) data)"
      unfolding split by (subst spec_runs.simps) (simp only: Let_def drop_eq [unfolded n_def tw_def] n_def tw_def)
    with step ih out_eq show ?thesis by simp
  qed
qed


lemma rle_compress_runs: "rle_compress data = concat (map spec_emit (spec_runs data))"
  unfolding rle_compress_def using rle_compress_loop_runs [of 0 data "[]"] by simp

lemma take_takeWhile_replicate:
  "k \<le> length (takeWhile (\<lambda>b. b = v) rest) \<Longrightarrow> take k rest = replicate k v"
proof (induction rest arbitrary: k)
  case Nil
  then show ?case by simp
next
  case (Cons a rest)
  show ?case
  proof (cases k)
    case 0
    then show ?thesis by simp
  next
    case (Suc k')
    with Cons.prems have "a = v" and "k' \<le> length (takeWhile (\<lambda>b. b = v) rest)"
      by (auto split: if_splits)
    with Cons.IH Suc show ?thesis by simp
  qed
qed

lemma run_prefix:
  assumes "n = min 255 (1 + length (takeWhile (\<lambda>b. b = v) rest))"
  shows "replicate n v @ drop (n - 1) rest = v # rest"
proof -
  from assms have "n - 1 \<le> length (takeWhile (\<lambda>b. b = v) rest)" and "1 \<le> n" by auto
  then have "take (n - 1) rest = replicate (n - 1) v" and "n = Suc (n - 1)"
    by (auto simp: take_takeWhile_replicate)
  then have "replicate n v @ drop (n - 1) rest = v # (take (n - 1) rest @ drop (n - 1) rest)"
    by (metis append_Cons replicate_Suc)
  then show ?thesis by simp
qed

lemma spec_runs_expand: "concat (map (\<lambda>(n, v). replicate n v) (spec_runs xs)) = xs"
proof (induction xs rule: spec_runs.induct)
  case 1
  then show ?case by simp
next
  case (2 v rest)
  define n where "n = min 255 (1 + length (takeWhile (\<lambda>b. b = v) rest))"
  have runs: "spec_runs (v # rest) = (n, v) # spec_runs (drop (n - 1) rest)"
    by (subst spec_runs.simps) (simp only: Let_def n_def)
  have "concat (map (\<lambda>(n, v). replicate n v) (spec_runs (drop (n - 1) rest))) = drop (n - 1) rest"
    using "2.IH" [OF n_def] .
  with runs run_prefix [OF n_def] show ?case by simp
qed

lemma spec_runs_bounds:
  "(n, v) \<in> set (spec_runs xs) \<Longrightarrow> 1 \<le> n \<and> n \<le> 255 \<and> v \<in> set xs"
proof (induction xs rule: spec_runs.induct)
  case 1
  then show ?case by simp
next
  case (2 w rest)
  define m where "m = min 255 (1 + length (takeWhile (\<lambda>b. b = w) rest))"
  have runs: "spec_runs (w # rest) = (m, w) # spec_runs (drop (m - 1) rest)"
    by (subst spec_runs.simps) (simp only: Let_def m_def)
  from "2.prems" runs consider "(n, v) = (m, w)" | "(n, v) \<in> set (spec_runs (drop (m - 1) rest))"
    by auto
  then show ?case
  proof cases
    case 1
    then have "n = m" and "v = w" by simp_all
    moreover have "1 \<le> m" and "m \<le> 255" unfolding m_def by simp_all
    ultimately show ?thesis by simp
  next
    case 2
    with "2.IH" [OF m_def] have "1 \<le> n \<and> n \<le> 255 \<and> v \<in> set (drop (m - 1) rest)" by simp
    moreover have "set (drop (m - 1) rest) \<subseteq> set rest" by (rule set_drop_subset)
    ultimately show ?thesis by auto
  qed
qed

subsection \<open>The decoder's loop computes \<open>decode_stream\<close>\<close>

lemma prepend_prepend: "prepend xs (prepend ys r) = prepend (xs @ ys) r"
  by (cases r) simp_all

lemma prepend_Nil: "prepend [] r = r"
  by (cases r) simp_all

lemma rle_decompress_loop_stream:
  "i \<le> length cd \<Longrightarrow>
   rle_decompress_loop cd i out = prepend out (decode_stream (drop i cd))"
proof (induction cd i out rule: rle_decompress_loop.induct)
  case (1 cd i out)
  show ?case
  proof (cases "i < length cd")
    case False
    with "1.prems" show ?thesis by (subst rle_decompress_loop.simps) simp
  next
    case lt: True
    then have split: "drop i cd = cd ! i # drop (Suc i) cd"
      by (simp add: Cons_nth_drop_Suc)
    show ?thesis
    proof (cases "cd ! i = 2")
      case False
      with lt "1.IH"(2) have "rle_decompress_loop cd (i + 1) (out @ [cd ! i]) =
          prepend (out @ [cd ! i]) (decode_stream (drop (i + 1) cd))"
        by simp
      with False lt show ?thesis
        by (subst rle_decompress_loop.simps) (simp add: split prepend_prepend)
    next
      case marker: True
      consider "\<not> i + 1 < length cd" | "i + 1 < length cd" "\<not> i + 2 < length cd"
        | "i + 2 < length cd" by linarith
      then show ?thesis
      proof cases
        case 1
        with lt have "drop (Suc i) cd = []" by simp
        with 1 lt marker show ?thesis
          by (subst rle_decompress_loop.simps) (simp add: split)
      next
        case 2
        then have "drop (Suc i) cd = [cd ! (i + 1)]"
          by (simp add: Cons_nth_drop_Suc [symmetric])
        with 2 lt marker show ?thesis
          by (subst rle_decompress_loop.simps) (simp add: split)
      next
        case 3
        then have rest: "drop (Suc i) cd = cd ! (i + 1) # cd ! (i + 2) # drop (i + 3) cd"
          by (simp add: Cons_nth_drop_Suc [symmetric] numeral_3_eq_3)
        from 3 have a: "i + 1 < length cd" by simp
        have "rle_decompress_loop cd (i + 3)
                (out @ replicate (unat (cd ! (i + 1))) (cd ! (i + 2))) =
              prepend (out @ replicate (unat (cd ! (i + 1))) (cd ! (i + 2)))
                (decode_stream (drop (i + 3) cd))"
          using "1.IH"(1) [OF lt marker _ _ refl refl] a 3 by simp
        with 3 a lt marker show ?thesis
          by (subst rle_decompress_loop.simps) (simp add: split rest prepend_prepend Let_def)
      qed
    qed
  qed
qed

lemma rle_decompress_stream: "rle_decompress cd = decode_stream cd"
  unfolding rle_decompress_def using rle_decompress_loop_stream [of 0 cd "[]"]
  by (simp add: prepend_Nil)

lemma decode_stream_append:
  "decode_stream p = Inr d \<Longrightarrow> decode_stream (p @ q) = prepend d (decode_stream q)"
proof (induction p arbitrary: d rule: decode_stream.induct)
  case 1
  then show ?case by (simp add: prepend_Nil)
next
  case (2 b rest)
  show ?case
  proof (cases "b = 2")
    case False
    with "2.prems" obtain d' where d': "decode_stream rest = Inr d'" and d: "d = b # d'"
      by (cases "decode_stream rest") auto
    from "2.IH"(2) [OF False d'] False d show ?thesis by (simp add: prepend_prepend)
  next
    case True
    with "2.prems" obtain n v rest' where rest: "rest = n # v # rest'"
      by (auto split: list.splits)
    with True "2.prems" obtain d' where d': "decode_stream rest' = Inr d'"
      and d: "d = replicate (unat n) v @ d'"
      by (cases "decode_stream rest'") auto
    from "2.IH"(1) [OF True rest refl d'] True rest d show ?thesis
      by (simp add: prepend_prepend)
  qed
qed

lemma decode_literal_run:
  "v \<noteq> 2 \<Longrightarrow> decode_stream (replicate n v @ ys) = prepend (replicate n v) (decode_stream ys)"
  by (induction n) (simp_all add: prepend_Nil prepend_prepend)

lemma unat_run_length: "n \<le> 255 \<Longrightarrow> unat (of_nat n :: byte) = n"
  by (simp add: unat_of_nat)

lemma decode_spec_emit:
  assumes "v \<noteq> 2" and "n \<le> 255"
  shows "decode_stream (spec_emit (n, v) @ ys) = prepend (replicate n v) (decode_stream ys)"
proof (cases "n \<ge> 3")
  case True
  with assms show ?thesis by (simp add: unat_run_length)
next
  case False
  with assms decode_literal_run [of v n ys] show ?thesis by simp
qed

lemma decode_spec_runs:
  "2 \<notin> set xs \<Longrightarrow> decode_stream (concat (map spec_emit (spec_runs xs))) = Inr xs"
proof (induction xs rule: spec_runs.induct)
  case 1
  then show ?case by simp
next
  case (2 v rest)
  define n where "n = min 255 (1 + length (takeWhile (\<lambda>b. b = v) rest))"
  have runs: "spec_runs (v # rest) = (n, v) # spec_runs (drop (n - 1) rest)"
    by (subst spec_runs.simps) (simp only: Let_def n_def)
  have "set (drop (n - 1) rest) \<subseteq> set rest" by (rule set_drop_subset)
  with "2.prems" have "2 \<notin> set (drop (n - 1) rest)" by auto
  with "2.IH" [OF n_def] have
    ih: "decode_stream (concat (map spec_emit (spec_runs (drop (n - 1) rest)))) = Inr (drop (n - 1) rest)"
    by simp
  from "2.prems" have v: "v \<noteq> 2" by auto
  have n: "n \<le> 255" unfolding n_def by simp
  have "decode_stream (concat (map spec_emit (spec_runs (v # rest)))) =
        prepend (replicate n v) (Inr (drop (n - 1) rest))"
    unfolding runs using decode_spec_emit [OF v n] ih by simp
  also have "\<dots> = Inr (v # rest)" using run_prefix [OF n_def] by simp
  finally show ?case .
qed

subsection \<open>Encoder output has complete escape sequences\<close>

lemma escapes_complete_nth:
  "escapes_complete ys \<Longrightarrow> j < length ys \<Longrightarrow> ys ! j = 2 \<Longrightarrow>
   j + 2 < length ys \<and> ys ! (j + 1) \<noteq> 2 \<and> ys ! (j + 2) \<noteq> 2"
proof (induction ys arbitrary: j rule: escapes_complete.induct)
  case 1
  then show ?case by simp
next
  case (2 b rest)
  show ?case
  proof (cases "b = 2")
    case False
    with "2.prems" obtain j' where j: "j = Suc j'" by (cases j) auto
    with "2.prems" False have "escapes_complete rest" "j' < length rest" "rest ! j' = 2"
      by simp_all
    with "2.IH"(2) [OF False] have
      "j' + 2 < length rest \<and> rest ! (j' + 1) \<noteq> 2 \<and> rest ! (j' + 2) \<noteq> 2" by blast
    with j show ?thesis by simp
  next
    case True
    with "2.prems"(1) obtain n v rest' where rest: "rest = n # v # rest'"
      and nv: "n \<noteq> 2" "v \<noteq> 2" and wf: "escapes_complete rest'"
      by (auto split: list.splits)
    consider "j = 0" | "j = 1" | "j = 2" | j' where "j = j' + 3"
      by (metis One_nat_def Suc_1 add_Suc_right add_2_eq_Suc' not0_implies_Suc numeral_3_eq_3 add.right_neutral)
    then show ?thesis
    proof cases
      case 1
      with rest nv show ?thesis by simp
    next
      case 2
      with rest nv "2.prems"(3) show ?thesis by simp
    next
      case 3
      with rest nv "2.prems"(3) show ?thesis by simp
    next
      case 4
      with rest "2.prems" have "j' < length rest'" "rest' ! j' = 2"
        by (simp_all add: numeral_3_eq_3)
      with "2.IH"(1) [OF True rest refl wf] have
        "j' + 2 < length rest' \<and> rest' ! (j' + 1) \<noteq> 2 \<and> rest' ! (j' + 2) \<noteq> 2" by blast
      with 4 rest show ?thesis by (simp add: numeral_3_eq_3)
    qed
  qed
qed

lemma escapes_complete_literal:
  "v \<noteq> 2 \<Longrightarrow> escapes_complete (replicate n v @ ys) = escapes_complete ys"
  by (induction n) simp_all

lemma run_length_not_marker:
  assumes "3 \<le> n" and "n \<le> 255"
  shows "(of_nat n :: byte) \<noteq> 2"
proof
  assume eq: "(of_nat n :: byte) = 2"
  from assms(2) have "unat (of_nat n :: byte) = n" by (rule unat_run_length)
  with eq have "n = 2" by simp
  with assms(1) show False by simp
qed

lemma escapes_complete_emit:
  assumes "v \<noteq> 2" and "n \<le> 255"
  shows "escapes_complete (spec_emit (n, v) @ ys) = escapes_complete ys"
proof (cases "n \<ge> 3")
  case True
  with assms run_length_not_marker [of n] show ?thesis by simp
next
  case False
  with assms escapes_complete_literal [of v n ys] show ?thesis by simp
qed

lemma escapes_complete_runs:
  "2 \<notin> set xs \<Longrightarrow> escapes_complete (concat (map spec_emit (spec_runs xs)))"
proof (induction xs rule: spec_runs.induct)
  case 1
  then show ?case by simp
next
  case (2 v rest)
  define n where "n = min 255 (1 + length (takeWhile (\<lambda>b. b = v) rest))"
  have runs: "spec_runs (v # rest) = (n, v) # spec_runs (drop (n - 1) rest)"
    by (subst spec_runs.simps) (simp only: Let_def n_def)
  have "set (drop (n - 1) rest) \<subseteq> set rest" by (rule set_drop_subset)
  with "2.prems" have "2 \<notin> set (drop (n - 1) rest)" by auto
  with "2.IH" [OF n_def] have
    ih: "escapes_complete (concat (map spec_emit (spec_runs (drop (n - 1) rest))))" by simp
  from "2.prems" have v: "v \<noteq> 2" by auto
  have n: "n \<le> 255" unfolding n_def by simp
  show ?case unfolding runs using escapes_complete_emit [OF v n] ih by simp
qed

section \<open>Properties of the resolver\<close>

lemma nth_take_map_drop:
  "j < length xs \<Longrightarrow> (take k xs @ map f (drop k xs)) ! j = (if j < k then xs ! j else f (xs ! j))"
  by (auto simp: nth_append min_def)

lemma fix_loop_spec:
  "copy < length h \<Longrightarrow> io = bytearray_find (h ! copy) 2 k \<Longrightarrow>
   fix_loop h copy io = h[copy := take k (h ! copy) @ map unflag (drop k (h ! copy))]"
proof (induction h copy io arbitrary: k rule: fix_loop.induct)
  case (1 h copy)
  let ?xs = "h ! copy"
  have "unflag b = b" if "b \<in> set (drop k ?xs)" for b
  proof -
    from that obtain m where "m < length (drop k ?xs)" "b = drop k ?xs ! m"
      by (auto simp: in_set_conv_nth)
    then have "k + m < length ?xs" "b = ?xs ! (k + m)" by simp_all
    with bytearray_find_NoneD [OF "1.prems"(2) [symmetric], of "k + m"] have "b \<noteq> 2" by simp
    then show ?thesis by (simp add: unflag_def)
  qed
  then have "map unflag (drop k ?xs) = drop k ?xs" by (simp add: map_idI)
  then show ?case by simp
next
  case (2 h copy i)
  let ?xs = "h ! copy"
  define h' where "h' = h[copy := ?xs[i := 1]]"
  from "2.prems"(2) [symmetric] have found: "k \<le> i" "i < length ?xs" "?xs ! i = 2"
    and before: "\<And>j. k \<le> j \<Longrightarrow> j < i \<Longrightarrow> ?xs ! j \<noteq> 2"
    using bytearray_find_SomeD by blast+
  from "2.prems"(1) have cell: "h' ! copy = ?xs[i := 1]" and len: "copy < length h'"
    unfolding h'_def by simp_all
  have "fix_loop h copy (Some i) = fix_loop h' copy (bytearray_find (h' ! copy) 2 (i + 1))"
    by (subst fix_loop.simps) (simp only: Let_def h'_def)
  also have "\<dots> = h'[copy := take (i + 1) (h' ! copy) @ map unflag (drop (i + 1) (h' ! copy))]"
    using "2.IH" [OF h'_def len refl] .
  also have "take (i + 1) (h' ! copy) @ map unflag (drop (i + 1) (h' ! copy)) =
             take k ?xs @ map unflag (drop k ?xs)"
  proof (rule nth_equalityI)
    show "length (take (i + 1) (h' ! copy) @ map unflag (drop (i + 1) (h' ! copy))) =
          length (take k ?xs @ map unflag (drop k ?xs))"
      unfolding cell by simp
  next
    fix j
    assume "j < length (take (i + 1) (h' ! copy) @ map unflag (drop (i + 1) (h' ! copy)))"
    then have j: "j < length ?xs" unfolding cell by simp
    then have j': "j < length (?xs[i := 1])" by simp
    have l: "(take (i + 1) (h' ! copy) @ map unflag (drop (i + 1) (h' ! copy))) ! j =
          (if j < i + 1 then (?xs[i := 1]) ! j else unflag ((?xs[i := 1]) ! j))"
      unfolding cell using nth_take_map_drop [OF j'] .
    have r: "(take k ?xs @ map unflag (drop k ?xs)) ! j = (if j < k then ?xs ! j else unflag (?xs ! j))"
      using nth_take_map_drop [OF j] .
    consider "j < k" | "k \<le> j" "j < i" | "j = i" | "i < j" by linarith
    then show "(take (i + 1) (h' ! copy) @ map unflag (drop (i + 1) (h' ! copy))) ! j =
               (take k ?xs @ map unflag (drop k ?xs)) ! j"
    proof cases
      case 1
      with found show ?thesis unfolding l r by simp
    next
      case 2
      with before [of j] show ?thesis unfolding l r by (simp add: unflag_def)
    next
      case 3
      with found show ?thesis unfolding l r by (simp add: unflag_def)
    next
      case 4
      with found show ?thesis unfolding l r by simp
    qed
  qed
  finally show ?case unfolding h'_def by simp
qed

lemma fix_data_for_rle_heap:
  "fix_data_for_rle h data = (h @ [map unflag (h ! data)], length h)"
proof -
  have "fix_loop (h @ [h ! data]) (length h) (bytearray_find ((h @ [h ! data]) ! length h) 2 0) =
        (h @ [h ! data])[length h := take 0 ((h @ [h ! data]) ! length h) @
           map unflag (drop 0 ((h @ [h ! data]) ! length h))]"
    by (rule fix_loop_spec) simp_all
  then show ?thesis
    unfolding fix_data_for_rle_def bytearray_copy_def by (simp add: Let_def)
qed

lemma fix_data_for_rle_result_map: "fix_data_for_rle_result data = map unflag data"
  unfolding fix_data_for_rle_result_def fix_data_for_rle_heap by simp

section \<open>Properties of the alpha transform and of the packaging decision\<close>

lemma get_alpha_values_pixels: "get_alpha_values xs = alpha_of_pixels xs"
proof (induction xs rule: alpha_of_pixels.induct)
  case (1 r g b a rest)
  then show ?case
    by (simp add: get_alpha_values_def py_slice_from_step_def numeral_3_eq_3)
qed (simp_all add: get_alpha_values_def py_slice_from_step_def numeral_3_eq_3)

lemma alpha_of_pixels_nth:
  "alpha_of_pixels xs = map (\<lambda>k. xs ! (4 * k + 3)) [0..<length xs div 4]"
proof (induction xs rule: alpha_of_pixels.induct)
  case (1 r g b a rest)
  let ?xs = "r # g # b # a # rest"
  have len: "length ?xs div 4 = Suc (length rest div 4)" by simp
  have first: "?xs ! (4 * 0 + 3) = a" by (simp add: numeral_3_eq_3)
  have later: "?xs ! (4 * Suc k + 3) = rest ! (4 * k + 3)" for k
  proof -
    have "4 * Suc k + 3 = Suc (Suc (Suc (Suc (4 * k + 3))))" by simp
    then show ?thesis by (simp only: nth_Cons_Suc)
  qed
  have "map (\<lambda>k. ?xs ! (4 * k + 3)) [0..<length ?xs div 4] =
        ?xs ! (4 * 0 + 3) # map (\<lambda>k. ?xs ! (4 * Suc k + 3)) [0..<length rest div 4]"
    unfolding len by (rule map_upt_Suc)
  also have "\<dots> = a # map (\<lambda>k. rest ! (4 * k + 3)) [0..<length rest div 4]"
    by (simp only: first later)
  also have "\<dots> = alpha_of_pixels ?xs"
    by (simp only: alpha_of_pixels.simps "1")
  finally show ?case by (rule sym)
qed simp_all

lemma alpha_loop_concat:
  "alpha_loop acc as = acc @ concat (map (\<lambda>a. [255, 255, 255, a]) as)"
  by (induction as arbitrary: acc) simp_all

lemma alpha_vals_to_image_data_concat:
  "alpha_vals_to_image_data as = concat (map (\<lambda>a. [255, 255, 255, a]) as)"
  by (simp add: alpha_vals_to_image_data_def alpha_loop_concat)

lemma alpha_vals_to_image_data_Cons:
  "alpha_vals_to_image_data (a # as) = 255 # 255 # 255 # a # alpha_vals_to_image_data as"
  by (simp add: alpha_vals_to_image_data_concat)

lemma alpha_vals_to_image_data_Nil: "alpha_vals_to_image_data [] = []"
  by (simp add: alpha_vals_to_image_data_concat)

lemma expand_extract_pixels:
  "length x mod 4 = 0 \<Longrightarrow>
   (alpha_vals_to_image_data (alpha_of_pixels x) = x) =
   (\<forall>k < length x div 4. x ! (4 * k) = 255 \<and> x ! (4 * k + 1) = 255 \<and> x ! (4 * k + 2) = 255)"
proof (induction x rule: alpha_of_pixels.induct)
  case (1 r g b a rest)
  then have ih: "(alpha_vals_to_image_data (alpha_of_pixels rest) = rest) =
     (\<forall>k < length rest div 4. rest ! (4 * k) = 255 \<and> rest ! (4 * k + 1) = 255 \<and> rest ! (4 * k + 2) = 255)"
    by simp
  have len: "length (r # g # b # a # rest) div 4 = Suc (length rest div 4)" by simp
  show ?case
    unfolding len All_less_Suc2 alpha_of_pixels.simps alpha_vals_to_image_data_Cons
    using ih by (simp add: numeral_2_eq_2 numeral_3_eq_3)
qed (simp_all add: alpha_vals_to_image_data_Nil)

lemma main_image_cases:
  "main_image mode (rgba, w, h) raw =
     (let working = (if mode then get_alpha_values rgba else rgba);
          resolved = fix_data_for_rle_result working;
          compressed = rle_compress resolved
      in if length raw < length compressed
         then (raw, w, h, length resolved, True, False)
         else (compressed, w, h, length resolved, False, mode))"
  by (simp add: main_image_def Let_def)

section \<open>Claims about the codec\<close>

text \<open>
  C1. For every byte sequence \<open>x\<close> that contains no byte equal to 2, decompressing
  the result of compressing \<open>x\<close> returns \<open>x\<close> exactly (and in particular does not
  raise): \<open>rle_decompress (rle_compress x) = x\<close>.
\<close>

theorem rle_roundtrip: "2 \<notin> set x \<Longrightarrow> rle_decompress (rle_compress x) = Inr x"
  by (simp add: rle_decompress_stream rle_compress_runs decode_spec_runs)

theorem rle_roundtrip_witness:
  "2 \<notin> set [5, 5, 5, 5, 7, 7, 9 :: byte] \<and>
   rle_compress [5, 5, 5, 5, 7, 7, 9] = [2, 4, 5, 7, 7, 9] \<and>
   rle_decompress (rle_compress [5, 5, 5, 5, 7, 7, 9]) = Inr [5, 5, 5, 5, 7, 7, 9]"
proof -
  have no_marker: "2 \<notin> set [5, 5, 5, 5, 7, 7, 9 :: byte]" by simp
  have out: "rle_compress [5, 5, 5, 5, 7, 7, 9] = [2, 4, 5, 7, 7, 9]" by code_simp
  from no_marker out rle_roundtrip [OF no_marker] show ?thesis by blast
qed

text \<open>
  C4. Compressing \<open>[5, 5]\<close> yields the two literal bytes \<open>[5, 5]\<close>, compressing
  \<open>[5, 5, 5]\<close> yields exactly \<open>[2, 3, 5]\<close>. In general the output of \<open>rle_compress\<close>
  is the concatenation of what the spec emits for each run of its greedy scan; the
  runs cover the input, every run has a length between 1 and 255, a run of length at
  least 3 is emitted as the escape triple \<open>[2, runLength, value]\<close> (whose length byte
  reads back as the run length), and a run of length 1 or 2 is emitted literally.
\<close>

theorem rle_run_threshold:
  "rle_compress [5, 5] = [5, 5] \<and>
   rle_compress [5, 5, 5] = [2, 3, 5] \<and>
   rle_compress x = concat (map spec_emit (spec_runs x)) \<and>
   concat (map (\<lambda>(n, v). replicate n v) (spec_runs x)) = x \<and>
   (\<forall>(n, v) \<in> set (spec_runs x).
      1 \<le> n \<and> n \<le> 255 \<and>
      (3 \<le> n \<longrightarrow> spec_emit (n, v) = [2, of_nat n, v] \<and> unat (of_nat n :: byte) = n) \<and>
      (n < 3 \<longrightarrow> spec_emit (n, v) = replicate n v))"
proof -
  have two: "rle_compress [5, 5] = [5, 5]" by code_simp
  have three: "rle_compress [5, 5, 5] = [2, 3, 5]" by code_simp
  have each: "1 \<le> n \<and> n \<le> 255 \<and>
      (3 \<le> n \<longrightarrow> spec_emit (n, v) = [2, of_nat n, v] \<and> unat (of_nat n :: byte) = n) \<and>
      (n < 3 \<longrightarrow> spec_emit (n, v) = replicate n v)"
    if "(n, v) \<in> set (spec_runs x)" for n v
  proof -
    from that have "1 \<le> n" and "n \<le> 255" using spec_runs_bounds by blast+
    then show ?thesis by (simp add: unat_run_length)
  qed
  from two three rle_compress_runs [of x] spec_runs_expand [of x] each
  show ?thesis by blast
qed

theorem rle_run_threshold_witness:
  "spec_runs [5, 5, 5, 5, 7, 7, 9] = [(4, 5), (2, 7), (1, 9)] \<and>
   rle_compress [5, 5, 5, 5, 7, 7, 9] = [2, 4, 5, 7, 7, 9] \<and>
   spec_emit (4, 5) = [2, 4, 5] \<and> spec_emit (2, 7) = [7, 7] \<and> spec_emit (1, 9) = [9]"
proof -
  have runs: "spec_runs [5, 5, 5, 5, 7, 7, 9] = [(4, 5), (2, 7), (1, 9)]" by code_simp
  have "rle_compress [5, 5, 5, 5, 7, 7, 9] =
        concat (map spec_emit (spec_runs [5, 5, 5, 5, 7, 7, 9]))"
    using rle_run_threshold [of "[5, 5, 5, 5, 7, 7, 9]"] by blast
  with runs show ?thesis by (simp add: numeral_2_eq_2)
qed

text \<open>
  C8. When the decoder reaches an escape marker (a byte 2 that follows a prefix \<open>p\<close>
  which decodes completely) and fewer than two further bytes follow it, \<open>rle_decompress\<close>
  fails with Python's \<^verbatim>\<open>IndexError\<close>: it neither reads out of bounds nor returns a
  result.
\<close>

theorem rle_decompress_truncated_escape:
  "rle_decompress p = Inr d \<Longrightarrow> length t < 2 \<Longrightarrow>
   rle_decompress (p @ 2 # t) = Inl IndexError"
proof -
  assume p: "rle_decompress p = Inr d" and t: "length t < 2"
  from t have "decode_stream (2 # t) = Inl IndexError"
    by (cases t) (auto split: list.splits)
  with p decode_stream_append [of p d "2 # t"] show ?thesis
    by (simp add: rle_decompress_stream)
qed

theorem rle_decompress_truncated_escape_witness:
  "rle_decompress [7, 2, 3, 5] = Inr [7, 5, 5, 5] \<and> length [9 :: byte] < 2 \<and>
   rle_decompress ([7, 2, 3, 5] @ 2 # [9]) = Inl IndexError"
proof -
  have p: "rle_decompress [7, 2, 3, 5] = Inr [7, 5, 5, 5]" by code_simp
  have t: "length [9 :: byte] < 2" by simp
  from p t rle_decompress_truncated_escape [OF p t] show ?thesis by blast
qed

text \<open>
  C10. For every input \<open>x\<close> that contains no byte equal to 2, every occurrence of
  the byte 2 in \<open>rle_compress x\<close> begins a complete three-byte escape sequence inside
  the output (and the two bytes after it are not markers themselves). Hence
  \<open>rle_decompress\<close> on that output never takes its out-of-range branch: it returns a
  result.
\<close>

theorem rle_compress_well_formed:
  "2 \<notin> set x \<Longrightarrow>
   (\<forall>j < length (rle_compress x). rle_compress x ! j = 2 \<longrightarrow>
      j + 2 < length (rle_compress x) \<and>
      rle_compress x ! (j + 1) \<noteq> 2 \<and> rle_compress x ! (j + 2) \<noteq> 2) \<and>
   rle_decompress (rle_compress x) \<noteq> Inl IndexError \<and>
   (\<exists>y. rle_decompress (rle_compress x) = Inr y)"
proof -
  assume x: "2 \<notin> set x"
  then have wf: "escapes_complete (rle_compress x)"
    by (simp add: rle_compress_runs escapes_complete_runs)
  have dec: "rle_decompress (rle_compress x) = Inr x"
    using x by (simp add: rle_decompress_stream rle_compress_runs decode_spec_runs)
  from wf escapes_complete_nth [of "rle_compress x"] dec show ?thesis by auto
qed

theorem rle_compress_well_formed_witness:
  "2 \<notin> set [5, 5, 5, 5, 7, 7, 9 :: byte] \<and>
   rle_compress [5, 5, 5, 5, 7, 7, 9] ! 0 = 2 \<and>
   0 + 2 < length (rle_compress [5, 5, 5, 5, 7, 7, 9]) \<and>
   (\<exists>y. rle_decompress (rle_compress [5, 5, 5, 5, 7, 7, 9]) = Inr y)"
proof -
  have no_marker: "2 \<notin> set [5, 5, 5, 5, 7, 7, 9 :: byte]" by simp
  have out: "rle_compress [5, 5, 5, 5, 7, 7, 9] = [2, 4, 5, 7, 7, 9]" by code_simp
  from rle_compress_well_formed [OF no_marker] no_marker out show ?thesis by simp
qed

section \<open>Claims about the resolver\<close>

text \<open>
  C5. For every buffer \<open>data\<close> of the heap, \<open>fix_data_for_rle\<close> returns a new buffer
  (an address that was not allocated before, so not the caller's) whose contents are
  those of \<open>data\<close> with every byte 2 replaced by 1, so that it contains no byte 2; the
  caller's buffer, and every other buffer that existed, is left as it was.
\<close>

theorem fix_data_for_rle_copy:
  "data < length h \<Longrightarrow> fix_data_for_rle h data = (h', copy) \<Longrightarrow>
   h' ! copy = map (\<lambda>b. if b = 2 then 1 else b) (h ! data) \<and>
   2 \<notin> set (h' ! copy) \<and>
   copy \<noteq> data \<and>
   h' ! data = h ! data \<and>
   length h' = length h + 1 \<and>
   (\<forall>a < length h. h' ! a = h ! a)"
proof -
  assume data: "data < length h" and run: "fix_data_for_rle h data = (h', copy)"
  from run have h': "h' = h @ [map unflag (h ! data)]"
    and copy: "copy = length h"
    unfolding fix_data_for_rle_heap by simp_all
  have cell: "h' ! copy = map unflag (h ! data)" unfolding h' copy by simp
  have unflag_fun: "unflag = (\<lambda>b. if b = 2 then 1 else b)" by (rule ext) (simp add: unflag_def)
  have no2: "2 \<notin> set (map unflag (h ! data))" by (auto simp: unflag_def)
  have old: "h' ! a = h ! a" if "a < length h" for a
    using that unfolding h' by (simp add: nth_append)
  from cell unflag_fun no2 old data copy h' show ?thesis by auto
qed

theorem fix_data_for_rle_copy_witness:
  "(0::nat) < length [[2, 7, 2, 2, 1 :: byte]] \<and>
   fix_data_for_rle [[2, 7, 2, 2, 1]] 0 = ([[2, 7, 2, 2, 1], [1, 7, 1, 1, 1]], 1) \<and>
   [[2, 7, 2, 2, 1], [1, 7, 1, 1, 1 :: byte]] ! 1 = map (\<lambda>b. if b = 2 then 1 else b) ([[2, 7, 2, 2, 1]] ! 0) \<and>
   [[2, 7, 2, 2, 1], [1, 7, 1, 1, 1 :: byte]] ! 0 = [[2, 7, 2, 2, 1]] ! 0"
proof -
  have data: "(0::nat) < length [[2, 7, 2, 2, 1 :: byte]]" by simp
  have run: "fix_data_for_rle [[2, 7, 2, 2, 1]] 0 = ([[2, 7, 2, 2, 1], [1, 7, 1, 1, 1]], 1)"
    by code_simp
  from fix_data_for_rle_copy [OF data run] data run show ?thesis by simp
qed

section \<open>Claims about the alpha transform\<close>

text \<open>
  C6. \<open>get_alpha_values\<close> returns exactly every fourth byte of its input starting at
  offset 3, that is the bytes at the indices \<open>4 * k + 3\<close> for \<open>k\<close> below
  \<open>length x div 4\<close>, in order; for instance
  \<open>get_alpha_values [r, g, b, a, r2, g2, b2, a2] = [a, a2]\<close>. And
  \<open>alpha_vals_to_image_data\<close> maps each alpha byte \<open>a\<close> to the four bytes
  \<open>[255, 255, 255, a]\<close>, in order; for instance
  \<open>alpha_vals_to_image_data [a] = [255, 255, 255, a]\<close>.
\<close>

theorem alpha_projection:
  "get_alpha_values x = map (\<lambda>k. x ! (4 * k + 3)) [0..<length x div 4] \<and>
   get_alpha_values [r, g, b, a, r2, g2, b2, a2] = [a, a2] \<and>
   alpha_vals_to_image_data as = concat (map (\<lambda>a. [255, 255, 255, a]) as) \<and>
   alpha_vals_to_image_data [a] = [255, 255, 255, a]"
  by (simp add: get_alpha_values_pixels alpha_of_pixels_nth [symmetric]
      alpha_vals_to_image_data_concat)

text \<open>
  C7. For every RGBA buffer \<open>x\<close> whose length is a multiple of 4, expanding the
  extracted alpha channel gives \<open>x\<close> back if and only if every pixel of \<open>x\<close> has its
  three colour bytes equal to 255.
\<close>

theorem alpha_expand_extract_iff:
  "length x mod 4 = 0 \<Longrightarrow>
   (alpha_vals_to_image_data (get_alpha_values x) = x) =
   (\<forall>k < length x div 4. x ! (4 * k) = 255 \<and> x ! (4 * k + 1) = 255 \<and> x ! (4 * k + 2) = 255)"
  by (simp only: get_alpha_values_pixels expand_extract_pixels)

theorem alpha_expand_extract_iff_witness:
  "length [255, 255, 255, 9, 255, 255, 255, 0 :: byte] mod 4 = 0 \<and>
   alpha_vals_to_image_data (get_alpha_values [255, 255, 255, 9, 255, 255, 255, 0]) =
     [255, 255, 255, 9, 255, 255, 255, 0] \<and>
   length [255, 255, 255, 9, 1, 255, 255, 0 :: byte] mod 4 = 0 \<and>
   alpha_vals_to_image_data (get_alpha_values [255, 255, 255, 9, 1, 255, 255, 0]) \<noteq>
     [255, 255, 255, 9, 1, 255, 255, 0]"
proof -
  have white: "length [255, 255, 255, 9, 255, 255, 255, 0 :: byte] mod 4 = 0" by simp
  have tinted: "length [255, 255, 255, 9, 1, 255, 255, 0 :: byte] mod 4 = 0" by simp
  have "\<forall>k < length [255, 255, 255, 9, 255, 255, 255, 0 :: byte] div 4.
          [255, 255, 255, 9, 255, 255, 255, 0 :: byte] ! (4 * k) = 255 \<and>
          [255, 255, 255, 9, 255, 255, 255, 0 :: byte] ! (4 * k + 1) = 255 \<and>
          [255, 255, 255, 9, 255, 255, 255, 0 :: byte] ! (4 * k + 2) = 255"
    by (simp add: All_less_Suc2 numeral_2_eq_2)
  with alpha_expand_extract_iff [OF white] have a:
    "alpha_vals_to_image_data (get_alpha_values [255, 255, 255, 9, 255, 255, 255, 0]) =
       [255, 255, 255, 9, 255, 255, 255, 0]" by blast
  have "\<not> (\<forall>k < length [255, 255, 255, 9, 1, 255, 255, 0 :: byte] div 4.
          [255, 255, 255, 9, 1, 255, 255, 0 :: byte] ! (4 * k) = 255 \<and>
          [255, 255, 255, 9, 1, 255, 255, 0 :: byte] ! (4 * k + 1) = 255 \<and>
          [255, 255, 255, 9, 1, 255, 255, 0 :: byte] ! (4 * k + 2) = 255)"
  proof
    assume "\<forall>k < length [255, 255, 255, 9, 1, 255, 255, 0 :: byte] div 4.
          [255, 255, 255, 9, 1, 255, 255, 0 :: byte] ! (4 * k) = 255 \<and>
          [255, 255, 255, 9, 1, 255, 255, 0 :: byte] ! (4 * k + 1) = 255 \<and>
          [255, 255, 255, 9, 1, 255, 255, 0 :: byte] ! (4 * k + 2) = 255"
    moreover have "(1::nat) < length [255, 255, 255, 9, 1, 255, 255, 0 :: byte] div 4" by simp
    ultimately have "[255, 255, 255, 9, 1, 255, 255, 0 :: byte] ! (4 * 1) = 255" by blast
    then show False by simp
  qed
  with alpha_expand_extract_iff [OF tinted] have b:
    "alpha_vals_to_image_data (get_alpha_values [255, 255, 255, 9, 1, 255, 255, 0]) \<noteq>
       [255, 255, 255, 9, 1, 255, 255, 0]" by blast
  from white tinted a b show ?thesis by blast
qed

text \<open>
  C9. For every alpha buffer \<open>a\<close>, with no precondition, extracting the alpha channel
  of its expansion returns it unchanged.
\<close>

theorem alpha_extract_expand: "get_alpha_values (alpha_vals_to_image_data a) = a"
  unfolding get_alpha_values_pixels
  by (induction a) (simp_all add: alpha_vals_to_image_data_Cons alpha_vals_to_image_data_Nil)

section \<open>Claims about the packaging decision\<close>

text \<open>
  C3. Let \<open>compressed\<close> be the run-length encoding of the resolved working buffer
  (the alpha channel when the mode is on, the pixel bytes otherwise). The tuple that
  \<open>main\<close> stores has the raw file bytes as payload, \<open>is_raw_png = True\<close> and
  \<open>alpha_only = False\<close> exactly when the raw file is strictly shorter than
  \<open>compressed\<close>; otherwise its payload is \<open>compressed\<close>, \<open>is_raw_png = False\<close> and
  \<open>alpha_only\<close> is the mode chosen in step 1. Hence \<open>is_raw_png\<close> is monotone in the
  length of the raw file (a raw file no longer than one that was chosen is chosen
  too), and no stored tuple has \<open>alpha_only\<close> and \<open>is_raw_png\<close> both true.
\<close>

theorem main_image_fallback:
  "compressed = rle_compress (fix_data_for_rle_result (if mode then get_alpha_values rgba else rgba)) \<Longrightarrow>
   decompressed_size = length (fix_data_for_rle_result (if mode then get_alpha_values rgba else rgba)) \<Longrightarrow>
   (length raw < length compressed \<longrightarrow>
      main_image mode (rgba, w, h) raw = (raw, w, h, decompressed_size, True, False)) \<and>
   (\<not> length raw < length compressed \<longrightarrow>
      main_image mode (rgba, w, h) raw = (compressed, w, h, decompressed_size, False, mode)) \<and>
   (entry_is_raw_png (main_image mode (rgba, w, h) raw) \<longleftrightarrow> length raw < length compressed) \<and>
   \<not> (entry_alpha_only (main_image mode (rgba, w, h) raw) \<and>
       entry_is_raw_png (main_image mode (rgba, w, h) raw)) \<and>
   (\<forall>raw'. length raw' \<le> length raw \<longrightarrow>
      entry_is_raw_png (main_image mode (rgba, w, h) raw) \<longrightarrow>
      entry_is_raw_png (main_image mode (rgba, w, h) raw'))"
  by (simp add: main_image_cases Let_def entry_is_raw_png_def entry_alpha_only_def)

theorem main_image_fallback_witness:
  "rle_compress (fix_data_for_rle_result (get_alpha_values [255, 255, 255, 0, 255, 255, 255, 10])) = [0, 10] \<and>
   main_image True ([255, 255, 255, 0, 255, 255, 255, 10], 2, 1) [137, 80, 78] =
     ([0, 10], 2, 1, 2, False, True) \<and>
   main_image True ([255, 255, 255, 0, 255, 255, 255, 10], 2, 1) [137] =
     ([137], 2, 1, 2, True, False)"
proof -
  have c: "[0, 10] = rle_compress (fix_data_for_rle_result
      (if True then get_alpha_values [255, 255, 255, 0, 255, 255, 255, 10]
       else [255, 255, 255, 0, 255, 255, 255, 10]))"
    by code_simp
  have d: "2 = length (fix_data_for_rle_result
      (if True then get_alpha_values [255, 255, 255, 0, 255, 255, 255, 10]
       else [255, 255, 255, 0, 255, 255, 255, 10]))"
    by code_simp
  from main_image_fallback [OF c d, of "[137, 80, 78]" 2 1]
    main_image_fallback [OF c d, of "[137]" 2 1] c [symmetric]
  show ?thesis by simp
qed

section \<open>The serialization round trip\<close>

text \<open>
  C2 states that \<open>extract_image_data\<close> applied to the output of \<open>generate_header\<close>
  gives back every record with all its fields. The code does not do that. For the
  table with the one record \<open>a.png\<close> with payload \<open>[0, 10]\<close>, width 2, height 1,
  decompressed size 2, \<open>is_raw_png = False\<close> and \<open>alpha_only = True\<close> (the record of the
  spec's end-to-end example), the deserializer returns payload \<open>[0, 10]\<close>, length 2,
  width 2, height 2, original size 1, \<open>is_raw_png = True\<close> and \<open>alpha_only = True\<close>: the
  pattern has one digit group more than the variables that read them, so the payload
  length is read as the width, the width as the height and the height as the original
  size, and both flags are \<^verbatim>\<open>bool\<close> of a non-empty string.
\<close>

theorem extract_image_data_example:
  "extract_image_data (generate_header [(''a.png'', ([0, 10], 2, 1, 2, False, True))]) =
     Inr [(''a.png'', ([0, 10], 2, 2, 2, 1, True, True))]"
  by code_simp

end
